theory Spec2Isabelle
  imports Main "HOL-Library.Sublist"
begin

section \<open>The Huffman coder of \<^verbatim>\<open>haffman_method.py\<close>\<close>

text \<open>
  Python strings are modelled by \<open>string\<close>; iterating over a string yields its
  characters one by one. A \<^verbatim>\<open>Node\<close> carries an optional character, an integer
  frequency and two optional children, exactly the four attributes that
  \<^verbatim>\<open>Node.__init__\<close> stores. Python exceptions are values of type \<open>error\<close>:
  \<open>IndexError\<close> is raised by \<^verbatim>\<open>copy_nodes[0]\<close> on an empty list, and
  \<open>AttributeError\<close> by reading \<^verbatim>\<open>.char\<close> of \<^verbatim>\<open>None\<close>, and
  \<open>RecursionError\<close> by a recursion deeper than the interpreter allows (it only
  occurs in the store model below, where the depth limit is a parameter).
\<close>

datatype error = IndexError | AttributeError | RecursionError

datatype node =
  Node (char: "char option") (frequency: int) (left: "node option") (right: "node option")

record HuffmanMethod =
  base_nodes :: "node list"
  root :: node
  code_dict :: "char \<rightharpoonup> string"

subsection \<open>\<^verbatim>\<open>HuffmanMethod._create_root_of_tree\<close>\<close>

text \<open>
  One pass of the \<^verbatim>\<open>while\<close> loop: a stable sort by frequency, two
  \<^verbatim>\<open>pop(0)\<close>, and the new node appended at the end. The loop guard
  \<^verbatim>\<open>len(copy_nodes) > 1\<close> makes both pops succeed.
\<close>

definition merge_step :: "node list \<Rightarrow> node list" where
  "merge_step copy_nodes =
     (let sorted_nodes = sort_key frequency copy_nodes;
          left_p = hd sorted_nodes;
          rest1 = tl sorted_nodes;
          right_p = hd rest1;
          rest2 = tl rest1;
          new_node = Node None (frequency left_p + frequency right_p) (Some left_p) (Some right_p)
      in rest2 @ [new_node])"

function create_root_loop :: "node list \<Rightarrow> node list" where
  "create_root_loop copy_nodes =
     (if 1 < length copy_nodes then create_root_loop (merge_step copy_nodes) else copy_nodes)"
  by pat_completeness auto
termination
  by (relation "measure length") (auto simp: merge_step_def Let_def)

declare create_root_loop.simps [simp del]

definition create_root_of_tree :: "node list \<Rightarrow> error + node" where
  "create_root_of_tree nodes =
     (case create_root_loop nodes of
        [] \<Rightarrow> Inl IndexError
      | r # _ \<Rightarrow> Inr r)"

subsection \<open>\<^verbatim>\<open>HuffmanMethod._generate_codes\<close>\<close>

fun generate_codes :: "node \<Rightarrow> string \<Rightarrow> (char \<rightharpoonup> string) \<Rightarrow> error + (char \<rightharpoonup> string)" where
  "generate_codes (Node ch f l r) pfx cd =
     (case ch of
        Some c \<Rightarrow> Inr (cd(c \<mapsto> pfx))
      | None \<Rightarrow>
          (case l of
             None \<Rightarrow> Inl AttributeError
           | Some ln \<Rightarrow>
               (case generate_codes ln (pfx @ ''0'') cd of
                  Inl e \<Rightarrow> Inl e
                | Inr cd1 \<Rightarrow>
                    (case r of
                       None \<Rightarrow> Inl AttributeError
                     | Some rn \<Rightarrow> generate_codes rn (pfx @ ''1'') cd1))))"

subsection \<open>\<^verbatim>\<open>HuffmanMethod.__init__\<close>\<close>

definition HuffmanMethod_init :: "node list \<Rightarrow> error + HuffmanMethod" where
  "HuffmanMethod_init nodes =
     (case create_root_of_tree nodes of
        Inl e \<Rightarrow> Inl e
      | Inr rt \<Rightarrow>
          (case generate_codes rt [] Map.empty of
             Inl e \<Rightarrow> Inl e
           | Inr cd \<Rightarrow> Inr \<lparr>base_nodes = nodes, root = rt, code_dict = cd\<rparr>))"

subsection \<open>\<^verbatim>\<open>HuffmanMethod.encode_text\<close>\<close>

text \<open>
  The loop appends the code of every character that has an entry; a character without
  one is passed over by the guard \<^verbatim>\<open>if char_code is not None\<close>. The result is
  the join of the collected codes. No statement of the method raises.
\<close>

fun encode_loop :: "(char \<rightharpoonup> string) \<Rightarrow> string \<Rightarrow> string list \<Rightarrow> string list" where
  "encode_loop cd [] char_list = char_list"
| "encode_loop cd (c # text) char_list =
     (case cd c of
        Some char_code \<Rightarrow> encode_loop cd text (char_list @ [char_code])
      | None \<Rightarrow> encode_loop cd text char_list)"

definition encode_text :: "HuffmanMethod \<Rightarrow> string \<Rightarrow> error + string" where
  "encode_text self text = Inr (concat (encode_loop (code_dict self) text []))"

subsection \<open>\<^verbatim>\<open>HuffmanMethod.decode_text\<close>\<close>

text \<open>
  \<open>decode_loop rt temp_node bits result\<close> is the \<^verbatim>\<open>for\<close> loop with the current
  node and the symbols emitted so far. The conditional expression takes the left child
  for \<^verbatim>\<open>"0"\<close> and the right child for every other character. Reading
  \<^verbatim>\<open>.char\<close> of a missing child raises.
\<close>

fun decode_loop :: "node \<Rightarrow> node \<Rightarrow> string \<Rightarrow> string \<Rightarrow> error + string" where
  "decode_loop rt temp_node [] result = Inr result"
| "decode_loop rt temp_node (b # bits) result =
     (case (if b = CHR ''0'' then left temp_node else right temp_node) of
        None \<Rightarrow> Inl AttributeError
      | Some n \<Rightarrow>
          (case char n of
             Some c \<Rightarrow> decode_loop rt rt bits (result @ [c])
           | None \<Rightarrow> decode_loop rt n bits result))"

definition decode_text :: "HuffmanMethod \<Rightarrow> string \<Rightarrow> error + string" where
  "decode_text self encoded_text = decode_loop (root self) (root self) encoded_text []"

subsection \<open>\<^verbatim>\<open>HuffmanBasedProcessor\<close>\<close>

text \<open>
  \<^verbatim>\<open>Counter(text)\<close> is a dictionary that keeps its keys in the order of their first
  occurrence; it is modelled by an association list updated in place.
\<close>

fun counter_add :: "char \<Rightarrow> (char \<times> int) list \<Rightarrow> (char \<times> int) list" where
  "counter_add c [] = [(c, 1)]"
| "counter_add c ((k, v) # kvs) =
     (if k = c then (k, v + 1) # kvs else (k, v) # counter_add c kvs)"

definition count_chars_freq :: "string \<Rightarrow> (char \<times> int) list" where
  "count_chars_freq text = foldl (\<lambda>freq_dict c. counter_add c freq_dict) [] text"

definition create_huffman_tree :: "string \<Rightarrow> node list" where
  "create_huffman_tree text =
     map (\<lambda>(c, freq). Node (Some c) freq None None) (count_chars_freq text)"

record HuffmanBasedProcessor =
  base_text :: string
  nodes :: "node list"
  huffman :: HuffmanMethod

definition HuffmanBasedProcessor_init :: "string \<Rightarrow> error + HuffmanBasedProcessor" where
  "HuffmanBasedProcessor_init text =
     (let ns = create_huffman_tree text in
      case HuffmanMethod_init ns of
        Inl e \<Rightarrow> Inl e
      | Inr h \<Rightarrow> Inr \<lparr>base_text = text, nodes = ns, huffman = h\<rparr>)"

definition processor_encode_text :: "HuffmanBasedProcessor \<Rightarrow> string option \<Rightarrow> error + string" where
  "processor_encode_text self text =
     encode_text (huffman self) (case text of None \<Rightarrow> base_text self | Some t \<Rightarrow> t)"

definition processor_decode_text :: "HuffmanBasedProcessor \<Rightarrow> string \<Rightarrow> error + string" where
  "processor_decode_text self text = decode_text (huffman self) text"


subsection \<open>The same methods over a store of objects\<close>

text \<open>
  The value model above treats a node as a value. To speak about mutation, the same
  methods are modelled once more over an explicit store: a node object lives at a
  reference and names its children by reference, and a Python list of nodes is a list
  object holding references. References are handed out in order of creation:
  \<open>node_count\<close> and \<open>list_count\<close> are the next free references.
\<close>

type_synonym ref = nat

record node_obj =
  obj_char :: "char option"
  obj_frequency :: int
  obj_left :: "ref option"
  obj_right :: "ref option"

record store =
  node_at :: "ref \<Rightarrow> node_obj"
  node_count :: nat
  list_at :: "ref \<Rightarrow> ref list"
  list_count :: nat

text \<open>
  The only statements of the source that write: the constructor \<^verbatim>\<open>Node(...)\<close>, and
  the list methods \<^verbatim>\<open>copy\<close>, \<^verbatim>\<open>sort\<close>, \<^verbatim>\<open>pop(0)\<close> and
  \<^verbatim>\<open>append\<close>.
\<close>

definition new_Node :: "char option \<Rightarrow> int \<Rightarrow> ref option \<Rightarrow> ref option \<Rightarrow> store \<Rightarrow> ref \<times> store" where
  "new_Node ch f l r s =
     (node_count s,
      s\<lparr>node_at := (node_at s)(node_count s :=
            \<lparr>obj_char = ch, obj_frequency = f, obj_left = l, obj_right = r\<rparr>),
        node_count := Suc (node_count s)\<rparr>)"

definition list_copy :: "ref \<Rightarrow> store \<Rightarrow> ref \<times> store" where
  "list_copy xs s =
     (list_count s,
      s\<lparr>list_at := (list_at s)(list_count s := list_at s xs),
        list_count := Suc (list_count s)\<rparr>)"

definition list_sort_by_frequency :: "ref \<Rightarrow> store \<Rightarrow> store" where
  "list_sort_by_frequency xs s =
     s\<lparr>list_at := (list_at s)(xs :=
          sort_key (\<lambda>a. obj_frequency (node_at s a)) (list_at s xs))\<rparr>"

definition list_pop0 :: "ref \<Rightarrow> store \<Rightarrow> ref \<times> store" where
  "list_pop0 xs s =
     (hd (list_at s xs), s\<lparr>list_at := (list_at s)(xs := tl (list_at s xs))\<rparr>)"

definition list_append :: "ref \<Rightarrow> ref \<Rightarrow> store \<Rightarrow> store" where
  "list_append xs a s = s\<lparr>list_at := (list_at s)(xs := list_at s xs @ [a])\<rparr>"

text \<open>
  A \<^verbatim>\<open>HuffmanMethod\<close> object keeps the reference of the list it was given
  (\<^verbatim>\<open>self.base_nodes = nodes\<close> does not copy) and the reference of the root.
\<close>

record HuffmanMethod_obj =
  base_nodes_ref :: ref
  root_ref :: ref
  code_dict_of :: "char \<rightharpoonup> string"

definition merge_step_s :: "ref \<Rightarrow> store \<Rightarrow> store" where
  "merge_step_s copy_nodes s =
     (let s1 = list_sort_by_frequency copy_nodes s;
          (left_p, s2) = list_pop0 copy_nodes s1;
          (right_p, s3) = list_pop0 copy_nodes s2;
          (new_node, s4) =
             new_Node None
               (obj_frequency (node_at s3 left_p) + obj_frequency (node_at s3 right_p))
               (Some left_p) (Some right_p) s3
      in list_append copy_nodes new_node s4)"

function create_root_loop_s :: "ref \<Rightarrow> store \<Rightarrow> store" where
  "create_root_loop_s copy_nodes s =
     (if 1 < length (list_at s copy_nodes)
      then create_root_loop_s copy_nodes (merge_step_s copy_nodes s) else s)"
  by pat_completeness auto
termination
  by (relation "measure (\<lambda>(copy_nodes, s). length (list_at s copy_nodes))")
     (auto simp: merge_step_s_def list_sort_by_frequency_def list_pop0_def new_Node_def
        list_append_def Let_def)

declare create_root_loop_s.simps [simp del]

definition create_root_of_tree_s :: "ref \<Rightarrow> store \<Rightarrow> (error + ref) \<times> store" where
  "create_root_of_tree_s base s =
     (let (copy_nodes, s1) = list_copy base s;
          s2 = create_root_loop_s copy_nodes s1
      in (case list_at s2 copy_nodes of
            [] \<Rightarrow> Inl IndexError
          | r # _ \<Rightarrow> Inr r, s2))"

text \<open>
  The recursion of \<^verbatim>\<open>_generate_codes\<close> follows references, so its depth is
  bounded by the parameter \<open>limit\<close>; a deeper recursion ends in \<open>RecursionError\<close>.
\<close>

fun generate_codes_s ::
  "nat \<Rightarrow> ref option \<Rightarrow> string \<Rightarrow> (char \<rightharpoonup> string) \<Rightarrow> store \<Rightarrow> (error + (char \<rightharpoonup> string)) \<times> store"
where
  "generate_codes_s 0 n pfx cd s = (Inl RecursionError, s)"
| "generate_codes_s (Suc limit) None pfx cd s = (Inl AttributeError, s)"
| "generate_codes_s (Suc limit) (Some a) pfx cd s =
     (case obj_char (node_at s a) of
        Some c \<Rightarrow> (Inr (cd(c \<mapsto> pfx)), s)
      | None \<Rightarrow>
          (case generate_codes_s limit (obj_left (node_at s a)) (pfx @ ''0'') cd s of
             (Inl e, s1) \<Rightarrow> (Inl e, s1)
           | (Inr cd1, s1) \<Rightarrow>
               generate_codes_s limit (obj_right (node_at s1 a)) (pfx @ ''1'') cd1 s1))"

definition HuffmanMethod_init_s ::
  "nat \<Rightarrow> ref \<Rightarrow> store \<Rightarrow> (error + HuffmanMethod_obj) \<times> store" where
  "HuffmanMethod_init_s limit nodes_ref s =
     (case create_root_of_tree_s nodes_ref s of
        (Inl e, s1) \<Rightarrow> (Inl e, s1)
      | (Inr rt, s1) \<Rightarrow>
          (case generate_codes_s limit (Some rt) [] Map.empty s1 of
             (Inl e, s2) \<Rightarrow> (Inl e, s2)
           | (Inr cd, s2) \<Rightarrow>
               (Inr \<lparr>base_nodes_ref = nodes_ref, root_ref = rt, code_dict_of = cd\<rparr>, s2)))"

definition encode_text_s :: "HuffmanMethod_obj \<Rightarrow> string \<Rightarrow> store \<Rightarrow> (error + string) \<times> store" where
  "encode_text_s self text s = (Inr (concat (encode_loop (code_dict_of self) text [])), s)"

fun decode_loop_s :: "ref \<Rightarrow> ref \<Rightarrow> string \<Rightarrow> string \<Rightarrow> store \<Rightarrow> (error + string) \<times> store" where
  "decode_loop_s rt temp_node [] result s = (Inr result, s)"
| "decode_loop_s rt temp_node (b # bits) result s =
     (case (if b = CHR ''0'' then obj_left (node_at s temp_node)
            else obj_right (node_at s temp_node)) of
        None \<Rightarrow> (Inl AttributeError, s)
      | Some n \<Rightarrow>
          (case obj_char (node_at s n) of
             Some c \<Rightarrow> decode_loop_s rt rt bits (result @ [c]) s
           | None \<Rightarrow> decode_loop_s rt n bits result s))"

definition decode_text_s :: "HuffmanMethod_obj \<Rightarrow> string \<Rightarrow> store \<Rightarrow> (error + string) \<times> store" where
  "decode_text_s self encoded_text s =
     decode_loop_s (root_ref self) (root_ref self) encoded_text [] s"

text \<open>The node objects at the references below \<open>k\<close>, in order of creation.\<close>

definition nodes_upto :: "nat \<Rightarrow> store \<Rightarrow> node_obj list" where
  "nodes_upto k s = map (node_at s) [0..<k]"

subsection \<open>From the store to values\<close>

text \<open>
  The value that a reference stands for: the node object with its children read in
  turn. In a store built by constructor calls alone, the children of a node are older
  than the node (\<open>well_formed\<close>), which is what the recursion relies on.
\<close>

function value_of :: "store \<Rightarrow> ref \<Rightarrow> node" where
  "value_of s a =
     Node (obj_char (node_at s a)) (obj_frequency (node_at s a))
       (case obj_left (node_at s a) of
          None \<Rightarrow> None
        | Some l \<Rightarrow> if l < a then Some (value_of s l) else None)
       (case obj_right (node_at s a) of
          None \<Rightarrow> None
        | Some r \<Rightarrow> if r < a then Some (value_of s r) else None)"
  by pat_completeness auto
termination
  by (relation "measure snd") auto

declare value_of.simps [simp del]

definition children_older :: "store \<Rightarrow> ref \<Rightarrow> bool" where
  "children_older s a =
     ((case obj_left (node_at s a) of None \<Rightarrow> True | Some l \<Rightarrow> l < a) \<and>
      (case obj_right (node_at s a) of None \<Rightarrow> True | Some r \<Rightarrow> r < a))"

definition well_formed :: "store \<Rightarrow> bool" where
  "well_formed s = list_all (children_older s) [0..<node_count s]"

text \<open>The depth of the recursion of \<^verbatim>\<open>_generate_codes\<close> on a node.\<close>

fun height :: "node \<Rightarrow> nat" where
  "height (Node ch f l r) =
     Suc (max (case l of None \<Rightarrow> 0 | Some ln \<Rightarrow> height ln)
              (case r of None \<Rightarrow> 0 | Some rn \<Rightarrow> height rn))"

text \<open>The list at a reference holds references of existing nodes.\<close>

definition refs_valid :: "store \<Rightarrow> ref \<Rightarrow> bool" where
  "refs_valid s xs = list_all (\<lambda>a. a < node_count s) (list_at s xs)"

text \<open>The value that a \<^verbatim>\<open>HuffmanMethod\<close> object of the store stands for.\<close>

definition method_value :: "store \<Rightarrow> HuffmanMethod_obj \<Rightarrow> HuffmanMethod" where
  "method_value s self =
     \<lparr>base_nodes = map (value_of s) (list_at s (base_nodes_ref self)),
      root = value_of s (root_ref self),
      code_dict = code_dict_of self\<rparr>"

subsection \<open>The decoder as the specification words it\<close>

text \<open>
  The specification describes the decoder as a state machine: the state is the current
  node together with the symbols emitted so far; a bit \<^verbatim>\<open>"0"\<close> descends left, a bit
  \<^verbatim>\<open>"1"\<close> descends right; on arriving at a leaf its symbol is emitted and the
  position is reset to the root. The machine has no move for any other character nor
  towards a missing child. This definition follows the specification, not the source;
  it is compared with \<open>decode_text\<close> below.
\<close>

definition machine_step :: "node \<Rightarrow> node \<times> string \<Rightarrow> char \<Rightarrow> (node \<times> string) option" where
  "machine_step rt st b =
     (case (if b = CHR ''0'' then left (fst st)
            else if b = CHR ''1'' then right (fst st) else None) of
        None \<Rightarrow> None
      | Some n \<Rightarrow>
          (case char n of
             Some c \<Rightarrow> Some (rt, snd st @ [c])
           | None \<Rightarrow> Some (n, snd st)))"

fun machine_run :: "node \<Rightarrow> node \<times> string \<Rightarrow> string \<Rightarrow> (node \<times> string) option" where
  "machine_run rt st [] = Some st"
| "machine_run rt st (b # bits) =
     (case machine_step rt st b of
        None \<Rightarrow> None
      | Some st' \<Rightarrow> machine_run rt st' bits)"

definition spec_decode :: "node \<Rightarrow> string \<Rightarrow> string option" where
  "spec_decode rt bits = map_option snd (machine_run rt (rt, []) bits)"

subsection \<open>Auxiliary notions\<close>

text \<open>
  A node is \<open>proper\<close> when every node without a character below it has both children.
  \<open>walk n p\<close> follows the path \<open>p\<close> from \<open>n\<close> and yields the character of the leaf it
  ends on, if it ends exactly on one. \<open>symbols n\<close> are the characters of the leaves
  reachable from \<open>n\<close>.
\<close>

fun proper :: "node \<Rightarrow> bool" where
  "proper (Node ch f l r) =
     (case ch of
        Some c \<Rightarrow> True
      | None \<Rightarrow>
          (case l of
             None \<Rightarrow> False
           | Some ln \<Rightarrow> proper ln \<and> (case r of None \<Rightarrow> False | Some rn \<Rightarrow> proper rn)))"

fun walk :: "node \<Rightarrow> string \<Rightarrow> char option" where
  "walk n [] = char n"
| "walk n (b # bs) =
     (case char n of
        Some c \<Rightarrow> None
      | None \<Rightarrow>
          (case (if b = CHR ''0'' then left n else right n) of
             None \<Rightarrow> None
           | Some m \<Rightarrow> walk m bs))"

fun symbols :: "node \<Rightarrow> char set" where
  "symbols (Node ch f l r) =
     (case ch of
        Some c \<Rightarrow> {c}
      | None \<Rightarrow> (case l of None \<Rightarrow> {} | Some ln \<Rightarrow> symbols ln) \<union>
                (case r of None \<Rightarrow> {} | Some rn \<Rightarrow> symbols rn))"

subsection \<open>Concrete inputs\<close>

text \<open>The frequency table \<^verbatim>\<open>{a:5, b:9, c:12, d:13, e:16, f:45}\<close> as a node list.\<close>

definition textbook_nodes :: "node list" where
  "textbook_nodes =
     [Node (Some CHR ''a'') 5 None None, Node (Some CHR ''b'') 9 None None,
      Node (Some CHR ''c'') 12 None None, Node (Some CHR ''d'') 13 None None,
      Node (Some CHR ''e'') 16 None None, Node (Some CHR ''f'') 45 None None]"

definition textbook_root :: node where
  "textbook_root =
     Node None 100 (Some (Node (Some CHR ''f'') 45 None None))
       (Some (Node None 55
          (Some (Node None 25 (Some (Node (Some CHR ''c'') 12 None None))
                              (Some (Node (Some CHR ''d'') 13 None None))))
          (Some (Node None 30
             (Some (Node None 14 (Some (Node (Some CHR ''a'') 5 None None))
                                 (Some (Node (Some CHR ''b'') 9 None None))))
             (Some (Node (Some CHR ''e'') 16 None None))))))"

definition textbook_method :: HuffmanMethod where
  "textbook_method =
     \<lparr>base_nodes = textbook_nodes, root = textbook_root,
      code_dict = [CHR ''f'' \<mapsto> ''0'', CHR ''c'' \<mapsto> ''100'', CHR ''d'' \<mapsto> ''101'',
                   CHR ''a'' \<mapsto> ''1100'', CHR ''b'' \<mapsto> ''1101'', CHR ''e'' \<mapsto> ''111'']\<rparr>"

text \<open>The processors of the texts \<^verbatim>\<open>"aaaa"\<close>, \<^verbatim>\<open>"zz"\<close> and \<^verbatim>\<open>"ab"\<close>.\<close>

definition aaaa_processor :: HuffmanBasedProcessor where
  "aaaa_processor =
     \<lparr>base_text = ''aaaa'', nodes = [Node (Some CHR ''a'') 4 None None],
      huffman = \<lparr>base_nodes = [Node (Some CHR ''a'') 4 None None],
                 root = Node (Some CHR ''a'') 4 None None,
                 code_dict = [CHR ''a'' \<mapsto> []]\<rparr>\<rparr>"

definition zz_processor :: HuffmanBasedProcessor where
  "zz_processor =
     \<lparr>base_text = ''zz'', nodes = [Node (Some CHR ''z'') 2 None None],
      huffman = \<lparr>base_nodes = [Node (Some CHR ''z'') 2 None None],
                 root = Node (Some CHR ''z'') 2 None None,
                 code_dict = [CHR ''z'' \<mapsto> []]\<rparr>\<rparr>"

definition ab_nodes :: "node list" where
  "ab_nodes = [Node (Some CHR ''a'') 1 None None, Node (Some CHR ''b'') 1 None None]"

definition ab_method :: HuffmanMethod where
  "ab_method =
     \<lparr>base_nodes = ab_nodes,
      root = Node None 2 (Some (Node (Some CHR ''a'') 1 None None))
                         (Some (Node (Some CHR ''b'') 1 None None)),
      code_dict = [CHR ''a'' \<mapsto> ''0'', CHR ''b'' \<mapsto> ''1'']\<rparr>"

text \<open>Three leaves, of which two get a code of two bits.\<close>

definition abc_nodes :: "node list" where
  "abc_nodes =
     [Node (Some CHR ''a'') 2 None None, Node (Some CHR ''b'') 1 None None,
      Node (Some CHR ''c'') 1 None None]"

definition abc_root :: node where
  "abc_root =
     Node None 4 (Some (Node (Some CHR ''a'') 2 None None))
       (Some (Node None 2 (Some (Node (Some CHR ''b'') 1 None None))
                          (Some (Node (Some CHR ''c'') 1 None None))))"

definition abc_method :: HuffmanMethod where
  "abc_method =
     \<lparr>base_nodes = abc_nodes, root = abc_root,
      code_dict = [CHR ''a'' \<mapsto> ''0'', CHR ''b'' \<mapsto> ''10'', CHR ''c'' \<mapsto> ''11'']\<rparr>"

text \<open>A store holding the two leaves of \<^verbatim>\<open>"ab"\<close> and the list of both.\<close>

definition ab_store :: store where
  "ab_store =
     \<lparr>node_at = (\<lambda>a. \<lparr>obj_char = None, obj_frequency = 0, obj_left = None, obj_right = None\<rparr>)
        (0 := \<lparr>obj_char = Some CHR ''a'', obj_frequency = 1, obj_left = None, obj_right = None\<rparr>,
         1 := \<lparr>obj_char = Some CHR ''b'', obj_frequency = 1, obj_left = None, obj_right = None\<rparr>),
      node_count = 2,
      list_at = (\<lambda>a. [])(0 := [0, 1]),
      list_count = 1\<rparr>"

section \<open>Properties\<close>

subsection \<open>The merge loop\<close>

lemma length_merge_step:
  "1 < length ns \<Longrightarrow> length (merge_step ns) = length ns - 1"
  by (simp add: merge_step_def Let_def)

lemma merge_step_set:
  assumes "1 < length ns"
  obtains l r rest where "set ns = {l, r} \<union> set rest"
    and "merge_step ns = rest @ [Node None (frequency l + frequency r) (Some l) (Some r)]"
proof -
  have len: "1 < length (sort_key frequency ns)" using assms by simp
  then obtain l r rest where s: "sort_key frequency ns = l # r # rest"
    by (cases "sort_key frequency ns"; cases "tl (sort_key frequency ns)") auto
  have "set ns = set (sort_key frequency ns)" by simp
  also have "\<dots> = {l, r} \<union> set rest" unfolding s by auto
  finally have a: "set ns = {l, r} \<union> set rest" .
  have b: "merge_step ns = rest @ [Node None (frequency l + frequency r) (Some l) (Some r)]"
    by (simp add: merge_step_def s)
  from a b show thesis by (rule that)
qed

lemma merge_step_proper:
  assumes "1 < length ns" and "\<forall>n\<in>set ns. proper n"
  shows "\<forall>n\<in>set (merge_step ns). proper n"
proof -
  from assms(1) obtain l r rest where a: "set ns = {l, r} \<union> set rest"
    and b: "merge_step ns = rest @ [Node None (frequency l + frequency r) (Some l) (Some r)]"
    by (rule merge_step_set)
  from assms(2) a have "proper l" "proper r" "\<forall>n\<in>set rest. proper n" by auto
  then show ?thesis unfolding b by auto
qed

lemma merge_step_symbols:
  assumes "1 < length ns"
  shows "(\<Union>n\<in>set (merge_step ns). symbols n) = (\<Union>n\<in>set ns. symbols n)"
proof -
  from assms(1) obtain l r rest where a: "set ns = {l, r} \<union> set rest"
    and b: "merge_step ns = rest @ [Node None (frequency l + frequency r) (Some l) (Some r)]"
    by (rule merge_step_set)
  show ?thesis unfolding a b by auto
qed

lemma merge_step_last:
  assumes "1 < length ns"
  shows "char (last (merge_step ns)) = None"
proof -
  from assms(1) obtain l r rest where 
    b: "merge_step ns = rest @ [Node None (frequency l + frequency r) (Some l) (Some r)]"
    by (rule merge_step_set)
  show ?thesis unfolding b by simp
qed

lemma create_root_loop_step:
  "1 < length ns \<Longrightarrow> create_root_loop ns = create_root_loop (merge_step ns)"
  by (subst create_root_loop.simps) simp

lemma create_root_loop_stop:
  "\<not> 1 < length ns \<Longrightarrow> create_root_loop ns = ns"
  by (subst create_root_loop.simps) simp

lemma create_root_loop_length:
  "ns \<noteq> [] \<Longrightarrow> length (create_root_loop ns) = 1"
proof (induction ns rule: create_root_loop.induct)
  case (1 ns)
  show ?case
  proof (cases "1 < length ns")
    case True
    then have "merge_step ns \<noteq> []" using length_merge_step [OF True] by auto
    from 1(1) [OF True this] show ?thesis
      by (simp add: create_root_loop_step [OF True])
  next
    case False
    with 1(2) have "length ns = 1" by (cases ns) auto
    then show ?thesis by (simp add: create_root_loop_stop [OF False])
  qed
qed

lemma create_root_loop_proper:
  "\<forall>n\<in>set ns. proper n \<Longrightarrow> \<forall>n\<in>set (create_root_loop ns). proper n"
proof (induction ns rule: create_root_loop.induct)
  case (1 ns)
  show ?case
  proof (cases "1 < length ns")
    case True
    from 1(1) [OF True merge_step_proper [OF True 1(2)]] show ?thesis
      by (simp add: create_root_loop_step [OF True])
  next
    case False
    with 1(2) show ?thesis by (simp add: create_root_loop_stop [OF False])
  qed
qed

lemma create_root_loop_symbols:
  "(\<Union>n\<in>set (create_root_loop ns). symbols n) = (\<Union>n\<in>set ns. symbols n)"
proof (induction ns rule: create_root_loop.induct)
  case (1 ns)
  show ?case
  proof (cases "1 < length ns")
    case True
    from 1 [OF True] merge_step_symbols [OF True] show ?thesis
      by (simp add: create_root_loop_step [OF True])
  next
    case False
    then show ?thesis by (simp add: create_root_loop_stop [OF False])
  qed
qed

lemma create_root_loop_internal:
  "1 < length ns \<Longrightarrow> char (last (create_root_loop ns)) = None"
proof (induction ns rule: create_root_loop.induct)
  case (1 ns)
  note unf = create_root_loop_step [OF 1(2)]
  show ?case
  proof (cases "1 < length (merge_step ns)")
    case True
    from 1(1) [OF 1(2) True] show ?thesis by (simp add: unf)
  next
    case False
    with merge_step_last [OF 1(2)] show ?thesis
      by (simp add: unf create_root_loop_stop [OF False])
  qed
qed


lemma create_root_of_tree_empty: "create_root_of_tree [] = Inl IndexError"
  by (simp add: create_root_of_tree_def create_root_loop_stop)

lemma create_root_of_tree_nonempty:
  assumes "ns \<noteq> []"
  shows "create_root_of_tree ns = Inr (hd (create_root_loop ns))"
    and "create_root_loop ns = [hd (create_root_loop ns)]"
proof -
  from create_root_loop_length [OF assms] obtain r where "create_root_loop ns = [r]"
    by (cases "create_root_loop ns") auto
  then show "create_root_of_tree ns = Inr (hd (create_root_loop ns))"
    and "create_root_loop ns = [hd (create_root_loop ns)]"
    by (simp_all add: create_root_of_tree_def)
qed

lemma create_root_of_tree_facts:
  assumes "create_root_of_tree ns = Inr rt"
  shows "ns \<noteq> []" and "create_root_loop ns = [rt]"
    and "symbols rt = (\<Union>n\<in>set ns. symbols n)"
    and "\<forall>n\<in>set ns. proper n \<Longrightarrow> proper rt"
    and "1 < length ns \<Longrightarrow> char rt = None"
proof -
  show ne: "ns \<noteq> []" using assms create_root_of_tree_empty by auto
  from create_root_of_tree_nonempty [OF ne] assms
  show l: "create_root_loop ns = [rt]" by simp
  from create_root_loop_symbols [of ns] l
  show "symbols rt = (\<Union>n\<in>set ns. symbols n)" by simp
  show "proper rt" if "\<forall>n\<in>set ns. proper n"
    using create_root_loop_proper [OF that] l by simp
  show "char rt = None" if "1 < length ns"
    using create_root_loop_internal [OF that] l by simp
qed

subsection \<open>Paths, codes and the decoding walk\<close>

lemma walk_leaf: "char n = Some c \<Longrightarrow> walk n p = Some d \<Longrightarrow> p = [] \<and> d = c"
  by (cases p) auto

lemma walk_prefix_unique:
  "walk n p = Some c \<Longrightarrow> walk n (p @ q) = Some d \<Longrightarrow> q = [] \<and> d = c"
proof (induction p arbitrary: n)
  case Nil
  then show ?case using walk_leaf [of n c q d] by simp
next
  case (Cons b bs)
  then show ?case by (auto split: option.splits if_splits)
qed

lemma generate_codes_walk:
  "generate_codes n pfx cd0 = Inr cd \<Longrightarrow> cd c = Some p \<Longrightarrow>
     cd0 c = Some p \<or> (\<exists>q. p = pfx @ q \<and> walk n q = Some c)"
proof (induction n pfx cd0 arbitrary: cd rule: generate_codes.induct)
  case (1 ch f l r pfx cd0)
  show ?case
  proof (cases ch)
    case (Some a)
    with 1 show ?thesis by (auto split: if_splits)
  next
    case None
    from 1(3) None obtain ln rn cd1 where l: "l = Some ln" and r: "r = Some rn"
      and g1: "generate_codes ln (pfx @ ''0'') cd0 = Inr cd1"
      and g2: "generate_codes rn (pfx @ ''1'') cd1 = Inr cd"
      by (auto split: option.splits sum.splits)
    from 1(2) [OF None l g1 r g2 1(4)]
    show ?thesis
    proof
      assume "cd1 c = Some p"
      from 1(1) [OF None l g1 this] show ?thesis
        using None l by auto
    next
      assume "\<exists>q. p = (pfx @ ''1'') @ q \<and> walk rn q = Some c"
      then show ?thesis using None r by auto
    qed
  qed
qed

lemma generate_codes_dom:
  "generate_codes n pfx cd0 = Inr cd \<Longrightarrow> dom cd = dom cd0 \<union> symbols n"
proof (induction n pfx cd0 arbitrary: cd rule: generate_codes.induct)
  case (1 ch f l r pfx cd0)
  show ?case
  proof (cases ch)
    case (Some a)
    with 1 show ?thesis by auto
  next
    case None
    from 1(3) None obtain ln rn cd1 where l: "l = Some ln" and r: "r = Some rn"
      and g1: "generate_codes ln (pfx @ ''0'') cd0 = Inr cd1"
      and g2: "generate_codes rn (pfx @ ''1'') cd1 = Inr cd"
      by (auto split: option.splits sum.splits)
    from 1(2) [OF None l g1 r g2] 1(1) [OF None l g1]
    show ?thesis using None l r by auto
  qed
qed

lemma generate_codes_proper:
  "proper n \<Longrightarrow> \<exists>cd. generate_codes n pfx cd0 = Inr cd"
proof (induction n pfx cd0 rule: generate_codes.induct)
  case (1 ch f l r pfx cd0)
  show ?case
  proof (cases ch)
    case (Some a)
    then show ?thesis by simp
  next
    case None
    from 1(3) None obtain ln rn where l: "l = Some ln" and r: "r = Some rn"
      and pl: "proper ln" and pr: "proper rn"
      by (auto split: option.splits)
    from 1(1) [OF None l pl] obtain cd1 where g1: "generate_codes ln (pfx @ ''0'') cd0 = Inr cd1" 
      by blast
    from 1(2) [OF None l g1 r pr] show ?thesis using None l r g1 by auto
  qed
qed


lemma decode_loop_walk:
  "char n = None \<Longrightarrow> walk n p = Some c \<Longrightarrow>
     decode_loop rt n (p @ rest) acc = decode_loop rt rt rest (acc @ [c])"
proof (induction p arbitrary: n)
  case Nil
  then show ?case by simp
next
  case (Cons b bs)
  from Cons.prems obtain m where m: "(if b = CHR ''0'' then left n else right n) = Some m"
    and w: "walk m bs = Some c"
    by (auto split: option.splits)
  show ?case
  proof (cases "char m")
    case None
    from Cons.IH [OF None w] show ?thesis using m None by simp
  next
    case (Some d)
    from walk_leaf [OF Some w] show ?thesis using m Some by simp
  qed
qed

lemma decode_loop_partial:
  "walk n (p @ q) = Some c \<Longrightarrow> q \<noteq> [] \<Longrightarrow> decode_loop rt n p acc = Inr acc"
proof (induction p arbitrary: n)
  case Nil
  then show ?case by simp
next
  case (Cons b bs)
  from Cons.prems obtain m where m: "(if b = CHR ''0'' then left n else right n) = Some m"
    and w: "walk m (bs @ q) = Some c"
    by (auto split: option.splits)
  have "char m = None"
  proof (cases "char m")
    case (Some d)
    from walk_leaf [OF Some w] Cons.prems(2) show ?thesis by simp
  qed simp
  with Cons.IH [OF w Cons.prems(2)] m show ?case by simp
qed

lemma decode_loop_total:
  "proper rt \<Longrightarrow> char rt = None \<Longrightarrow> proper n \<Longrightarrow> char n = None \<Longrightarrow>
     \<exists>out. decode_loop rt n bits acc = Inr out"
proof (induction bits arbitrary: n acc)
  case Nil
  then show ?case by simp
next
  case (Cons b bs)
  from Cons.prems(3,4) obtain f ln rn where n: "n = Node None f (Some ln) (Some rn)"
    and pl: "proper ln" and pr: "proper rn"
    by (cases n) (auto split: option.splits)
  define m where "m = (if b = CHR ''0'' then ln else rn)"
  have pm: "proper m" using pl pr by (simp add: m_def)
  have step: "(if b = CHR ''0'' then left n else right n) = Some m"
    by (simp add: n m_def)
  show ?case
  proof (cases "char m")
    case None
    from Cons.IH [OF Cons.prems(1,2) pm None, of acc] show ?thesis using step None by simp
  next
    case (Some d)
    from Cons.IH [OF Cons.prems(1,2) Cons.prems(1,2), of "acc @ [d]"] show ?thesis
      using step Some by simp
  qed
qed

lemma decode_loop_nonbinary:
  "decode_loop rt n bits acc =
     decode_loop rt n (map (\<lambda>c. if c = CHR ''0'' then CHR ''0'' else CHR ''1'') bits) acc"
  by (induction bits arbitrary: n acc) (auto split: option.splits)

lemma encode_loop_closed:
  "encode_loop cd text acc =
     acc @ map (\<lambda>c. the (cd c)) (filter (\<lambda>c. cd c \<noteq> None) text)"
  by (induction "text" arbitrary: acc) (auto split: option.splits)

lemma decode_loop_codes:
  "char rt = None \<Longrightarrow> \<forall>c\<in>set text. \<exists>p. cd c = Some p \<and> walk rt p = Some c \<Longrightarrow>
     decode_loop rt rt (concat (map (\<lambda>c. the (cd c)) text) @ rest) acc =
     decode_loop rt rt rest (acc @ text)"
proof (induction "text" arbitrary: acc)
  case Nil
  then show ?case by simp
next
  case (Cons c cs)
  from Cons.prems(2) obtain p where p: "cd c = Some p" and w: "walk rt p = Some c"
    by auto
  have "decode_loop rt rt (concat (map (\<lambda>c. the (cd c)) (c # cs)) @ rest) acc =
        decode_loop rt rt (p @ (concat (map (\<lambda>c. the (cd c)) cs) @ rest)) acc"
    using p by simp
  also have "\<dots> = decode_loop rt rt (concat (map (\<lambda>c. the (cd c)) cs) @ rest) (acc @ [c])"
    by (rule decode_loop_walk [OF Cons.prems(1) w])
  also have "\<dots> = decode_loop rt rt rest ((acc @ [c]) @ cs)"
    using Cons.prems by (intro Cons.IH) auto
  finally show ?case by simp
qed


subsection \<open>The frequency count\<close>

lemma counter_add_keys: "set (map fst (counter_add c kvs)) = insert c (set (map fst kvs))"
proof (induction kvs)
  case Nil
  then show ?case by simp
next
  case (Cons kv kvs)
  obtain k v where kv: "kv = (k, v)" by (cases kv)
  show ?case
  proof (cases "k = c")
    case True
    then show ?thesis by (simp add: kv insert_absorb2)
  next
    case False
    then show ?thesis using Cons.IH by (simp add: kv insert_commute)
  qed
qed

lemma counter_add_distinct:
  "distinct (map fst kvs) \<Longrightarrow> distinct (map fst (counter_add c kvs))"
proof (induction kvs)
  case Nil
  then show ?case by simp
next
  case (Cons kv kvs)
  obtain k v where kv: "kv = (k, v)" by (cases kv)
  from Cons counter_add_keys [of c kvs] show ?case
    by (auto simp: kv)
qed

lemma count_chars_freq_gen:
  "set (map fst (foldl (\<lambda>freq_dict c. counter_add c freq_dict) acc inp)) =
     set (map fst acc) \<union> set inp"
proof (induction inp arbitrary: acc)
  case Nil
  then show ?case by simp
next
  case (Cons c cs)
  show ?case using Cons [of "counter_add c acc"] counter_add_keys [of c acc] by simp
qed

lemma count_chars_freq_keys: "set (map fst (count_chars_freq inp)) = set inp"
  using count_chars_freq_gen [of "[]" inp] by (simp add: count_chars_freq_def)

lemma count_chars_freq_distinct_gen:
  "distinct (map fst acc) \<Longrightarrow>
     distinct (map fst (foldl (\<lambda>freq_dict c. counter_add c freq_dict) acc inp))"
  by (induction inp arbitrary: acc) (auto simp: counter_add_distinct)

lemma count_chars_freq_distinct: "distinct (map fst (count_chars_freq inp))"
  using count_chars_freq_distinct_gen [of "[]" inp] by (simp add: count_chars_freq_def)

lemma create_huffman_tree_leaf:
  "n \<in> set (create_huffman_tree inp) \<Longrightarrow> char n \<noteq> None \<and> left n = None \<and> right n = None"
  by (auto simp: create_huffman_tree_def)

lemma symbols_leaves:
  "(\<Union>n\<in>set (map (\<lambda>(c, freq). Node (Some c) freq None None) kvs). symbols n) = set (map fst kvs)"
  by (induction kvs) auto

lemma create_huffman_tree_symbols:
  "(\<Union>n\<in>set (create_huffman_tree inp). symbols n) = set inp"
  unfolding create_huffman_tree_def symbols_leaves by (rule count_chars_freq_keys)

lemma create_huffman_tree_length:
  "length (create_huffman_tree inp) = card (set inp)"
proof -
  have "length (create_huffman_tree inp) = length (map fst (count_chars_freq inp))"
    by (simp add: create_huffman_tree_def)
  also have "\<dots> = card (set (map fst (count_chars_freq inp)))"
    by (rule distinct_card [symmetric]) (rule count_chars_freq_distinct)
  also have "\<dots> = card (set inp)"
    using count_chars_freq_keys [of inp] by simp
  finally show ?thesis .
qed

lemma char_proper: "char n \<noteq> None \<Longrightarrow> proper n"
  by (cases n) auto



subsection \<open>Construction from leaves\<close>

lemma generate_codes_error:
  "generate_codes n pfx cd0 = Inl e \<Longrightarrow> e = AttributeError"
proof (induction n pfx cd0 rule: generate_codes.induct)
  case (1 ch f l r pfx cd0)
  then show ?case
    by (auto split: option.splits sum.splits)
qed

lemma leaves_proper: "list_all (\<lambda>n. char n \<noteq> None) ns \<Longrightarrow> \<forall>n\<in>set ns. proper n"
  by (auto simp: list_all_iff char_proper)

lemma init_proper:
  assumes "ns \<noteq> []" and "\<forall>n\<in>set ns. proper n"
  obtains m where "HuffmanMethod_init ns = Inr m" and "base_nodes m = ns"
    and "create_root_of_tree ns = Inr (root m)"
    and "generate_codes (root m) [] Map.empty = Inr (code_dict m)"
proof -
  from create_root_of_tree_nonempty(1) [OF assms(1)] obtain rt
    where rt: "create_root_of_tree ns = Inr rt" by blast
  from create_root_of_tree_facts(4) [OF rt assms(2)] have "proper rt" .
  from generate_codes_proper [OF this] obtain cd
    where cd: "generate_codes rt [] Map.empty = Inr cd" by blast
  show thesis
    by (rule that [of "\<lparr>base_nodes = ns, root = rt, code_dict = cd\<rparr>"])
       (simp_all add: HuffmanMethod_init_def rt cd)
qed

lemma init_facts:
  assumes "HuffmanMethod_init ns = Inr m"
  shows "base_nodes m = ns" and "create_root_of_tree ns = Inr (root m)"
    and "generate_codes (root m) [] Map.empty = Inr (code_dict m)"
  using assms by (auto simp: HuffmanMethod_init_def split: sum.splits)

lemma init_code_walk:
  assumes "HuffmanMethod_init ns = Inr m" and "code_dict m c = Some p"
  shows "walk (root m) p = Some c"
  using generate_codes_walk [OF init_facts(3) [OF assms(1)] assms(2)] by simp

lemma init_dom:
  assumes "HuffmanMethod_init ns = Inr m"
  shows "dom (code_dict m) = (\<Union>n\<in>set ns. symbols n)"
  using generate_codes_dom [OF init_facts(3) [OF assms]]
    create_root_of_tree_facts(3) [OF init_facts(2) [OF assms]] by simp

lemma init_internal:
  assumes "HuffmanMethod_init ns = Inr m" and "2 \<le> length ns" and "\<forall>n\<in>set ns. proper n"
  shows "char (root m) = None" and "proper (root m)"
proof -
  note rt = init_facts(2) [OF assms(1)]
  from assms(2) have "1 < length ns" by simp
  from create_root_of_tree_facts(5) [OF rt this] show "char (root m) = None" .
  from create_root_of_tree_facts(4) [OF rt assms(3)] show "proper (root m)" .
qed

lemma encode_text_closed:
  "encode_text m inp =
     Inr (concat (map (\<lambda>c. case code_dict m c of None \<Rightarrow> [] | Some code \<Rightarrow> code) inp))"
proof -
  have "concat (map (\<lambda>c. the (code_dict m c)) (filter (\<lambda>c. code_dict m c \<noteq> None) inp)) =
        concat (map (\<lambda>c. case code_dict m c of None \<Rightarrow> [] | Some code \<Rightarrow> code) inp)"
    by (induction inp) (auto split: option.splits)
  then show ?thesis by (simp add: encode_text_def encode_loop_closed)
qed

lemma encode_text_covered:
  assumes "set inp \<subseteq> dom (code_dict m)"
  shows "encode_text m inp = Inr (concat (map (\<lambda>c. the (code_dict m c)) inp))"
proof -
  from assms have "filter (\<lambda>c. code_dict m c \<noteq> None) inp = inp"
    by (induction inp) auto
  then show ?thesis by (simp add: encode_text_def encode_loop_closed)
qed

lemma decode_encoded:
  assumes init: "HuffmanMethod_init ns = Inr m"
    and len: "2 \<le> length ns" and pr: "\<forall>n\<in>set ns. proper n"
    and cov: "set inp \<subseteq> dom (code_dict m)"
    and enc: "encode_text m inp = Inr enc"
  shows "decode_text m (enc @ rest) = decode_loop (root m) (root m) rest inp"
proof -
  have e: "enc = concat (map (\<lambda>c. the (code_dict m c)) inp)"
    using enc encode_text_covered [OF cov] by simp
  have w: "\<forall>c\<in>set inp. \<exists>p. code_dict m c = Some p \<and> walk (root m) p = Some c"
  proof
    fix c assume "c \<in> set inp"
    with cov obtain p where p: "code_dict m c = Some p" by auto
    with init_code_walk [OF init p] show "\<exists>p. code_dict m c = Some p \<and> walk (root m) p = Some c"
      by simp
  qed
  from decode_loop_codes [OF init_internal(1) [OF init len pr] w, of rest "[]"]
  show ?thesis by (simp add: decode_text_def e)
qed

text \<open>
  The round trip through the processor, for a text with at least two distinct symbols.
\<close>

theorem roundtrip_at_least_two_symbols:
  assumes "2 \<le> card (set S)"
  shows "\<exists>p enc. HuffmanBasedProcessor_init S = Inr p \<and>
           processor_encode_text p None = Inr enc \<and>
           processor_decode_text p enc = Inr S"
proof -
  let ?ns = "create_huffman_tree S"
  have len: "2 \<le> length ?ns" using assms by (simp add: create_huffman_tree_length)
  then have ne: "?ns \<noteq> []" by auto
  have pr: "\<forall>n\<in>set ?ns. proper n"
    using create_huffman_tree_leaf char_proper by blast
  from init_proper [OF ne pr] obtain m where m: "HuffmanMethod_init ?ns = Inr m" by blast
  define p where "p = \<lparr>base_text = S, nodes = ?ns, huffman = m\<rparr>"
  have p: "HuffmanBasedProcessor_init S = Inr p"
    by (simp add: HuffmanBasedProcessor_init_def Let_def m p_def)
  have cov: "set S \<subseteq> dom (code_dict m)"
    using init_dom [OF m] create_huffman_tree_symbols [of S] by simp
  obtain enc where enc: "encode_text m S = Inr enc"
    using encode_text_closed by blast
  from decode_encoded [OF m len pr cov enc, of "[]"]
  have "decode_text m enc = Inr S" by simp
  with p enc show ?thesis
    by (auto simp: processor_encode_text_def processor_decode_text_def p_def)
qed


subsection \<open>Evaluation on the concrete inputs\<close>

lemma textbook_root_eval: "create_root_of_tree textbook_nodes = Inr textbook_root"
  by (simp add: create_root_of_tree_def textbook_nodes_def textbook_root_def
      create_root_loop.simps merge_step_def)

lemma textbook_init: "HuffmanMethod_init textbook_nodes = Inr textbook_method"
  by (simp add: HuffmanMethod_init_def textbook_root_eval)
     (simp add: textbook_root_def textbook_method_def)

lemma aaaa_init: "HuffmanBasedProcessor_init ''aaaa'' = Inr aaaa_processor"
  by (simp add: HuffmanBasedProcessor_init_def create_huffman_tree_def count_chars_freq_def
      HuffmanMethod_init_def create_root_of_tree_def create_root_loop.simps aaaa_processor_def
      Let_def)

lemma zz_init: "HuffmanBasedProcessor_init ''zz'' = Inr zz_processor"
  by (simp add: HuffmanBasedProcessor_init_def create_huffman_tree_def count_chars_freq_def
      HuffmanMethod_init_def create_root_of_tree_def create_root_loop.simps zz_processor_def
      Let_def)

lemma ab_init: "HuffmanMethod_init ab_nodes = Inr ab_method"
  by (simp add: HuffmanMethod_init_def create_root_of_tree_def create_root_loop.simps
      merge_step_def ab_nodes_def ab_method_def)

lemma ab_nodes_text: "create_huffman_tree ''ab'' = ab_nodes"
  by (simp add: create_huffman_tree_def count_chars_freq_def ab_nodes_def)

lemma abc_init: "HuffmanMethod_init abc_nodes = Inr abc_method"
  by (simp add: HuffmanMethod_init_def create_root_of_tree_def create_root_loop.simps
      merge_step_def abc_nodes_def abc_method_def abc_root_def)

subsection \<open>What the methods leave unchanged in the store\<close>

lemma merge_step_s_node:
  "a < node_count s \<Longrightarrow> node_at (merge_step_s cn s) a = node_at s a"
  by (simp add: merge_step_s_def list_sort_by_frequency_def list_pop0_def new_Node_def
        list_append_def Let_def)

lemma merge_step_s_count:
  "node_count (merge_step_s cn s) = Suc (node_count s)"
  by (simp add: merge_step_s_def list_sort_by_frequency_def list_pop0_def new_Node_def
        list_append_def Let_def)

lemma merge_step_s_list:
  "xs \<noteq> cn \<Longrightarrow> list_at (merge_step_s cn s) xs = list_at s xs"
  by (simp add: merge_step_s_def list_sort_by_frequency_def list_pop0_def new_Node_def
        list_append_def Let_def)

lemma merge_step_s_list_count:
  "list_count (merge_step_s cn s) = list_count s"
  by (simp add: merge_step_s_def list_sort_by_frequency_def list_pop0_def new_Node_def
        list_append_def Let_def)

lemma create_root_loop_s_frame:
  "(\<forall>a<node_count s. node_at (create_root_loop_s cn s) a = node_at s a) \<and>
   node_count s \<le> node_count (create_root_loop_s cn s) \<and>
   (\<forall>xs. xs \<noteq> cn \<longrightarrow> list_at (create_root_loop_s cn s) xs = list_at s xs) \<and>
   list_count (create_root_loop_s cn s) = list_count s"
proof (induction cn s rule: create_root_loop_s.induct)
  case (1 cn s)
  show ?case
  proof (cases "1 < length (list_at s cn)")
    case True
    have unf: "create_root_loop_s cn s = create_root_loop_s cn (merge_step_s cn s)"
      using True by (subst create_root_loop_s.simps) simp
    from 1 [OF True] show ?thesis
      unfolding unf
      by (auto simp: merge_step_s_node merge_step_s_count merge_step_s_list
            merge_step_s_list_count)
  next
    case False
    then have "create_root_loop_s cn s = s"
      by (subst create_root_loop_s.simps) simp
    then show ?thesis by simp
  qed
qed

lemma generate_codes_s_store: "snd (generate_codes_s limit n pfx cd s) = s"
proof (induction limit n pfx cd s rule: generate_codes_s.induct)
  case (3 limit a pfx cd s)
  show ?case
  proof (cases "obj_char (node_at s a)")
    case (Some c)
    then show ?thesis by simp
  next
    case None
    obtain r1 s1 where g1: "generate_codes_s limit (obj_left (node_at s a)) (pfx @ ''0'') cd s = (r1, s1)"
      by (cases "generate_codes_s limit (obj_left (node_at s a)) (pfx @ ''0'') cd s")
    from 3(1) [OF None] g1 have s1: "s1 = s" by simp
    show ?thesis
    proof (cases r1)
      case (Inl e)
      then show ?thesis using None g1 s1 by simp
    next
      case (Inr cd1)
      from 3(2) [OF None g1 [symmetric] Inr] show ?thesis using None g1 s1 Inr by simp
    qed
  qed
qed simp_all

lemma decode_loop_s_store: "snd (decode_loop_s rt n bits acc s) = s"
  by (induction bits arbitrary: n acc) (auto split: option.splits)


lemma nodes_upto_cong:
  "(\<And>a. a < k \<Longrightarrow> node_at s' a = node_at s a) \<Longrightarrow> nodes_upto k s' = nodes_upto k s"
  by (simp add: nodes_upto_def)

lemma create_root_of_tree_s_frame:
  "(\<forall>a<node_count s. node_at (snd (create_root_of_tree_s base s)) a = node_at s a) \<and>
   (\<forall>xs<list_count s. list_at (snd (create_root_of_tree_s base s)) xs = list_at s xs)"
proof -
  obtain cn s1 where c: "list_copy base s = (cn, s1)" by (cases "list_copy base s")
  from c have n1: "node_at s1 = node_at s" and k1: "node_count s1 = node_count s"
    and l1: "\<And>ys. ys < list_count s \<Longrightarrow> list_at s1 ys = list_at s ys"
    and cn: "cn = list_count s"
    by (auto simp: list_copy_def)
  have s2: "snd (create_root_of_tree_s base s) = create_root_loop_s cn s1"
    by (simp add: create_root_of_tree_s_def c Let_def)
  note f = create_root_loop_s_frame [of s1 cn]
  show ?thesis
    unfolding s2 using f n1 k1 l1 cn by auto
qed

lemma HuffmanMethod_init_s_store:
  "snd (HuffmanMethod_init_s limit base s) = snd (create_root_of_tree_s base s)"
proof -
  obtain r s1 where c: "create_root_of_tree_s base s = (r, s1)"
    by (cases "create_root_of_tree_s base s")
  show ?thesis
  proof (cases r)
    case (Inl e)
    then show ?thesis by (simp add: HuffmanMethod_init_s_def c)
  next
    case (Inr rt)
    obtain r2 s2 where g: "generate_codes_s limit (Some rt) [] Map.empty s1 = (r2, s2)"
      by (cases "generate_codes_s limit (Some rt) [] Map.empty s1")
    from generate_codes_s_store [of limit "Some rt" "[]" Map.empty s1] g have "s2 = s1" by simp
    then show ?thesis
      by (cases r2) (simp_all add: HuffmanMethod_init_s_def c Inr g)
  qed
qed

lemma ab_store_init:
  "fst (HuffmanMethod_init_s 5 0 ab_store) =
     Inr \<lparr>base_nodes_ref = 0, root_ref = 2,
          code_dict_of = [CHR ''a'' \<mapsto> ''0'', CHR ''b'' \<mapsto> ''1'']\<rparr>"
  by (simp add: HuffmanMethod_init_s_def create_root_of_tree_s_def list_copy_def
      create_root_loop_s.simps merge_step_s_def list_sort_by_frequency_def list_pop0_def
      new_Node_def list_append_def ab_store_def Let_def eval_nat_numeral)

subsection \<open>The store model computes what the value model computes\<close>

lemma value_of_char [simp]: "char (value_of s a) = obj_char (node_at s a)"
  by (subst value_of.simps) simp

lemma value_of_frequency [simp]: "frequency (value_of s a) = obj_frequency (node_at s a)"
  by (subst value_of.simps) simp

lemma well_formedD:
  "well_formed s \<Longrightarrow> a < node_count s \<Longrightarrow> children_older s a"
  by (simp add: well_formed_def list_all_iff)

lemma value_of_left:
  assumes "children_older s a"
  shows "left (value_of s a) = map_option (value_of s) (obj_left (node_at s a))"
  using assms by (subst value_of.simps) (simp add: children_older_def split: option.splits)

lemma value_of_right:
  assumes "children_older s a"
  shows "right (value_of s a) = map_option (value_of s) (obj_right (node_at s a))"
  using assms by (subst value_of.simps) (simp add: children_older_def split: option.splits)

lemma value_of_cong:
  "(\<And>b. b \<le> a \<Longrightarrow> node_at s' b = node_at s b) \<Longrightarrow> value_of s' a = value_of s a"
proof (induction a rule: less_induct)
  case (less a)
  have eq: "node_at s' a = node_at s a" using less.prems by simp
  have l: "value_of s' l = value_of s l" if "l < a" for l
    using that less.prems by (intro less.IH) auto
  show ?case
    by (subst value_of.simps, subst (2) value_of.simps)
       (simp add: eq l split: option.splits)
qed

lemma map_insort_key:
  "(\<And>x. k x = f (g x)) \<Longrightarrow> map g (insort_key k a xs) = insort_key f (g a) (map g xs)"
  by (induction xs) auto

lemma map_sort_key:
  "(\<And>x. k x = f (g x)) \<Longrightarrow> map g (sort_key k xs) = sort_key f (map g xs)"
  by (induction xs) (auto simp: map_insort_key)

lemma merge_step_s_refines:
  assumes len: "1 < length (list_at s cn)" and rv: "refs_valid s cn" and wf: "well_formed s"
  shows "map (value_of (merge_step_s cn s)) (list_at (merge_step_s cn s) cn) =
           merge_step (map (value_of s) (list_at s cn))"
    and "refs_valid (merge_step_s cn s) cn"
    and "well_formed (merge_step_s cn s)"
proof -
  let ?k = "\<lambda>a. obj_frequency (node_at s a)"
  let ?sorted = "sort_key ?k (list_at s cn)"
  let ?s' = "merge_step_s cn s"
  from len have "1 < length ?sorted" by simp
  then obtain l r rest where sorted: "?sorted = l # r # rest"
    by (cases ?sorted; cases "tl ?sorted") auto
  have "set ?sorted = set (list_at s cn)" by simp
  with rv have valid: "\<forall>a\<in>set (l # r # rest). a < node_count s"
    unfolding sorted by (auto simp: refs_valid_def list_all_iff)
  have list': "list_at ?s' cn = rest @ [node_count s]"
    by (simp add: merge_step_s_def list_sort_by_frequency_def list_pop0_def new_Node_def
        list_append_def Let_def sorted)
  have new: "node_at ?s' (node_count s) =
      \<lparr>obj_char = None, obj_frequency = ?k l + ?k r, obj_left = Some l, obj_right = Some r\<rparr>"
    by (simp add: merge_step_s_def list_sort_by_frequency_def list_pop0_def new_Node_def
        list_append_def Let_def sorted)
  have old: "value_of ?s' a = value_of s a" if "a < node_count s" for a
    using that by (intro value_of_cong) (simp add: merge_step_s_node)
  have vnew: "value_of ?s' (node_count s) =
      Node None (?k l + ?k r) (Some (value_of s l)) (Some (value_of s r))"
    using valid by (subst value_of.simps) (simp add: new old)
  have "map (value_of s) ?sorted = sort_key frequency (map (value_of s) (list_at s cn))"
    by (rule map_sort_key) simp
  then have vs: "sort_key frequency (map (value_of s) (list_at s cn)) =
      value_of s l # value_of s r # map (value_of s) rest"
    by (simp add: sorted)
  have ms: "merge_step (map (value_of s) (list_at s cn)) =
      map (value_of s) rest @
        [Node None (?k l + ?k r) (Some (value_of s l)) (Some (value_of s r))]"
    by (simp add: merge_step_def vs)
  show "map (value_of ?s') (list_at ?s' cn) = merge_step (map (value_of s) (list_at s cn))"
    using valid by (simp add: list' ms vnew old)
  show "refs_valid ?s' cn"
    using valid by (auto simp: refs_valid_def list_all_iff list' merge_step_s_count)
  have "children_older ?s' a" if "a < Suc (node_count s)" for a
  proof (cases "a = node_count s")
    case True
    with valid show ?thesis by (simp add: children_older_def new)
  next
    case False
    with that have a: "a < node_count s" by simp
    from well_formedD [OF wf a] show ?thesis
      by (simp add: children_older_def merge_step_s_node [OF a])
  qed
  then show "well_formed ?s'"
    by (simp add: well_formed_def list_all_iff merge_step_s_count del: upt_Suc)
qed

lemma create_root_loop_s_refines:
  "refs_valid s cn \<Longrightarrow> well_formed s \<Longrightarrow>
     map (value_of (create_root_loop_s cn s)) (list_at (create_root_loop_s cn s) cn) =
       create_root_loop (map (value_of s) (list_at s cn)) \<and>
     refs_valid (create_root_loop_s cn s) cn \<and> well_formed (create_root_loop_s cn s)"
proof (induction cn s rule: create_root_loop_s.induct)
  case (1 cn s)
  show ?case
  proof (cases "1 < length (list_at s cn)")
    case True
    have unf: "create_root_loop_s cn s = create_root_loop_s cn (merge_step_s cn s)"
      using True by (subst create_root_loop_s.simps) simp
    have unf': "create_root_loop (map (value_of s) (list_at s cn)) =
        create_root_loop (merge_step (map (value_of s) (list_at s cn)))"
      using True by (subst create_root_loop.simps) simp
    note m = merge_step_s_refines [OF True "1.prems"]
    from "1.IH" [OF True m(2,3)] show ?thesis
      unfolding unf unf' m(1) .
  next
    case False
    have unf: "create_root_loop_s cn s = s"
      using False by (subst create_root_loop_s.simps) simp
    have unf': "create_root_loop (map (value_of s) (list_at s cn)) =
        map (value_of s) (list_at s cn)"
      using False by (subst create_root_loop.simps) simp
    from "1.prems" show ?thesis unfolding unf unf' by simp
  qed
qed

lemma list_copy_refines:
  assumes "list_copy base s = (cn, s1)" and "refs_valid s base" and "well_formed s"
  shows "list_at s1 cn = list_at s base" and "refs_valid s1 cn" and "well_formed s1"
    and "value_of s1 = value_of s"
proof -
  from assms(1) have n: "node_at s1 = node_at s" and k: "node_count s1 = node_count s"
    and l: "list_at s1 cn = list_at s base"
    by (auto simp: list_copy_def)
  show "list_at s1 cn = list_at s base" by (rule l)
  show "refs_valid s1 cn" using assms(2) by (simp add: refs_valid_def l k)
  have "children_older s1 = children_older s"
    by (simp add: fun_eq_iff children_older_def n)
  then show "well_formed s1" using assms(3)
    by (simp add: well_formed_def k)
  show "value_of s1 = value_of s"
    by (rule ext, rule value_of_cong) (simp add: n)
qed

lemma create_root_of_tree_s_refines:
  assumes rv: "refs_valid s base" and wf: "well_formed s"
    and res: "create_root_of_tree_s base s = (r, s')"
  shows "create_root_of_tree (map (value_of s) (list_at s base)) =
           (case r of Inl e \<Rightarrow> Inl e | Inr rt \<Rightarrow> Inr (value_of s' rt))"
    and "well_formed s'"
    and "case r of Inl e \<Rightarrow> True | Inr rt \<Rightarrow> rt < node_count s'"
proof -
  obtain cn s1 where c: "list_copy base s = (cn, s1)" by (cases "list_copy base s")
  note lc = list_copy_refines [OF c rv wf]
  from res have s': "s' = create_root_loop_s cn s1"
    and r: "r = (case list_at s' cn of [] \<Rightarrow> Inl IndexError | rt # _ \<Rightarrow> Inr rt)"
    by (auto simp: create_root_of_tree_s_def c Let_def)
  from create_root_loop_s_refines [OF lc(2,3)]
  have m: "map (value_of s') (list_at s' cn) = create_root_loop (map (value_of s) (list_at s base))"
    and rv': "refs_valid s' cn" and wf': "well_formed s'"
    by (simp_all add: s' lc(1,4))
  show "well_formed s'" by (rule wf')
  show "create_root_of_tree (map (value_of s) (list_at s base)) =
           (case r of Inl e \<Rightarrow> Inl e | Inr rt \<Rightarrow> Inr (value_of s' rt))"
    unfolding create_root_of_tree_def m [symmetric] r
    by (cases "list_at s' cn") simp_all
  show "case r of Inl e \<Rightarrow> True | Inr rt \<Rightarrow> rt < node_count s'"
    using rv' unfolding r refs_valid_def
    by (cases "list_at s' cn") simp_all
qed

lemma height_child:
  assumes "children_older s a"
  shows "obj_left (node_at s a) = Some l \<Longrightarrow> height (value_of s l) < height (value_of s a)"
    and "obj_right (node_at s a) = Some r \<Longrightarrow> height (value_of s r) < height (value_of s a)"
  using assms
  by (subst (2) value_of.simps, simp add: children_older_def less_Suc_eq_le split: option.splits)+

lemma generate_codes_s_refines:
  "well_formed s \<Longrightarrow> a < node_count s \<Longrightarrow> height (value_of s a) < limit \<Longrightarrow>
     fst (generate_codes_s limit (Some a) pfx cd s) = generate_codes (value_of s a) pfx cd"
proof (induction limit arbitrary: a pfx cd)
  case 0
  then show ?case by simp
next
  case (Suc limit)
  note co = well_formedD [OF Suc.prems(1,2)]
  have h1: "1 \<le> height (value_of s a)" by (subst value_of.simps) simp
  with Suc.prems(3) obtain lim where lim: "limit = Suc lim" by (cases limit) auto
  have sub: "fst (generate_codes_s limit n p c s) =
      (case n of None \<Rightarrow> Inl AttributeError | Some b \<Rightarrow> generate_codes (value_of s b) p c)"
    if "n = obj_left (node_at s a) \<or> n = obj_right (node_at s a)" for n p c
  proof (cases n)
    case None
    then show ?thesis by (simp add: lim)
  next
    case (Some b)
    with that co have b: "b < a" by (auto simp: children_older_def split: option.splits)
    from that Some height_child [OF co] have "height (value_of s b) < height (value_of s a)"
      by auto
    with Suc.prems(3) have "height (value_of s b) < limit" by simp
    from Suc.IH [OF Suc.prems(1) _ this] b Suc.prems(2) show ?thesis
      by (simp add: Some)
  qed
  show ?case
  proof (cases "obj_char (node_at s a)")
    case (Some c)
    then show ?thesis by (subst value_of.simps) simp
  next
    case None
    obtain r1 s1 where g1:
      "generate_codes_s limit (obj_left (node_at s a)) (pfx @ ''0'') cd s = (r1, s1)"
      by (cases "generate_codes_s limit (obj_left (node_at s a)) (pfx @ ''0'') cd s")
    from generate_codes_s_store [of limit "obj_left (node_at s a)" "pfx @ ''0''" cd s] g1
    have s1: "s1 = s" by simp
    from sub [of "obj_left (node_at s a)" "pfx @ ''0''" cd] g1
    have r1: "r1 = (case obj_left (node_at s a) of None \<Rightarrow> Inl AttributeError
                    | Some b \<Rightarrow> generate_codes (value_of s b) (pfx @ ''0'') cd)"
      by simp
    have v: "value_of s a = Node None (obj_frequency (node_at s a))
        (map_option (value_of s) (obj_left (node_at s a)))
        (map_option (value_of s) (obj_right (node_at s a)))"
      using co None
      by (subst value_of.simps) (simp add: children_older_def split: option.splits)
    show ?thesis
    proof (cases "obj_left (node_at s a)")
      case ln: None
      then show ?thesis using None g1 r1 by (simp add: v)
    next
      case ln: (Some l)
      from r1 ln have p1: "generate_codes (value_of s l) (pfx @ ''0'') cd = r1" by simp
      show ?thesis
      proof (cases r1)
        case (Inl e)
        then show ?thesis using None g1 p1 ln by (simp add: v)
      next
        case (Inr cd1)
        from sub [of "obj_right (node_at s a)" "pfx @ ''1''" cd1]
        have "fst (generate_codes_s limit (obj_right (node_at s a)) (pfx @ ''1'') cd1 s) =
            (case obj_right (node_at s a) of None \<Rightarrow> Inl AttributeError
             | Some b \<Rightarrow> generate_codes (value_of s b) (pfx @ ''1'') cd1)"
          by simp
        then show ?thesis using None g1 p1 ln Inr s1
          by (simp add: v split: option.splits)
      qed
    qed
  qed
qed

lemma decode_loop_s_refines:
  "well_formed s \<Longrightarrow> rt < node_count s \<Longrightarrow> n < node_count s \<Longrightarrow>
     fst (decode_loop_s rt n bits acc s) =
       decode_loop (value_of s rt) (value_of s n) bits acc"
proof (induction bits arbitrary: n acc)
  case Nil
  then show ?case by simp
next
  case (Cons b bs)
  note co = well_formedD [OF Cons.prems(1,3)]
  let ?next = "if b = CHR ''0'' then obj_left (node_at s n) else obj_right (node_at s n)"
  have nx: "(if b = CHR ''0'' then left (value_of s n) else right (value_of s n)) =
      map_option (value_of s) ?next"
    by (simp add: value_of_left [OF co] value_of_right [OF co])
  show ?case
  proof (cases ?next)
    case None
    with nx show ?thesis by simp
  next
    case (Some m)
    with co have "m < n" by (auto simp: children_older_def split: option.splits if_splits)
    with Cons.prems(3) have m: "m < node_count s" by simp
    from Cons.IH [OF Cons.prems(1,2) m] Cons.IH [OF Cons.prems(1,2) Cons.prems(2)]
    show ?thesis using nx Some
      by (simp split: option.splits)
  qed
qed

text \<open>
  Constructing a \<^verbatim>\<open>HuffmanMethod\<close> in a well-formed store and reading the result as
  a value gives what the value model constructs from the values of the given nodes, and
  encoding and decoding agree as well, provided the recursion limit exceeds the height
  of the tree.
\<close>

theorem store_model_refines:
  assumes wf: "well_formed s" and rv: "refs_valid s base" and b: "base < list_count s"
    and init: "HuffmanMethod_init_s limit base s = (Inr m, s')"
    and h: "height (value_of s' (root_ref m)) < limit"
  shows "HuffmanMethod_init (map (value_of s) (list_at s base)) = Inr (method_value s' m)"
    and "fst (encode_text_s m inp s') = encode_text (method_value s' m) inp"
    and "fst (decode_text_s m bits s') = decode_text (method_value s' m) bits"
proof -
  obtain r s1 where c: "create_root_of_tree_s base s = (r, s1)"
    by (cases "create_root_of_tree_s base s")
  from init c obtain rt where r: "r = Inr rt"
    by (cases r) (auto simp: HuffmanMethod_init_s_def)
  obtain r2 s2 where g: "generate_codes_s limit (Some rt) [] Map.empty s1 = (r2, s2)"
    by (cases "generate_codes_s limit (Some rt) [] Map.empty s1")
  from generate_codes_s_store [of limit "Some rt" "[]" Map.empty s1] g have s2: "s2 = s1"
    by simp
  from init c r g s2 obtain cd where r2: "r2 = Inr cd" and s': "s' = s1"
    and m: "m = \<lparr>base_nodes_ref = base, root_ref = rt, code_dict_of = cd\<rparr>"
    by (cases r2) (auto simp: HuffmanMethod_init_s_def)
  note cr = create_root_of_tree_s_refines [OF rv wf c]
  from cr(1) have root: "create_root_of_tree (map (value_of s) (list_at s base)) =
      Inr (value_of s1 rt)"
    by (simp add: r)
  from cr(3) have rtv: "rt < node_count s1" by (simp add: r)
  from h have h': "height (value_of s1 rt) < limit" by (simp add: s' m)
  from generate_codes_s_refines [OF cr(2) rtv h', of "[]" Map.empty] g r2
  have gc: "generate_codes (value_of s1 rt) [] Map.empty = Inr cd" by simp
  from create_root_of_tree_s_frame [of s base] c b
  have lst: "list_at s1 base = list_at s base"
    and nd: "\<And>a. a < node_count s \<Longrightarrow> node_at s1 a = node_at s a"
    by simp_all
  have "value_of s1 a = value_of s a" if "a \<in> set (list_at s base)" for a
  proof (rule value_of_cong)
    fix b assume "b \<le> a"
    moreover from rv that have "a < node_count s" by (simp add: refs_valid_def list_all_iff)
    ultimately show "node_at s1 b = node_at s b" by (intro nd) simp
  qed
  then have bn: "map (value_of s1) (list_at s1 base) = map (value_of s) (list_at s base)"
    by (simp add: lst)
  show "HuffmanMethod_init (map (value_of s) (list_at s base)) = Inr (method_value s' m)"
    by (simp add: HuffmanMethod_init_def root gc method_value_def s' m bn)
  show "fst (encode_text_s m inp s') = encode_text (method_value s' m) inp"
    by (simp add: encode_text_s_def encode_text_def method_value_def)
  show "fst (decode_text_s m bits s') = decode_text (method_value s' m) bits"
    using decode_loop_s_refines [OF cr(2) rtv rtv, of bits "[]"]
    by (simp add: decode_text_s_def decode_text_def method_value_def s' m)
qed

section \<open>The claims\<close>

text \<open>
  Claim C1 (round trip for every non-empty symbol sequence). The code loses the text
  \<^verbatim>\<open>"zz"\<close>: the only leaf is the root, its code is the empty path, the encoding is
  the empty string and decoding it returns the empty string. For texts with at least two
  distinct symbols the round trip is \<open>roundtrip_at_least_two_symbols\<close> above.
\<close>

theorem single_symbol_roundtrip_lost:
  "HuffmanBasedProcessor_init ''zz'' = Inr zz_processor \<and>
   processor_encode_text zz_processor None = Inr [] \<and>
   processor_decode_text zz_processor [] = Inr [] \<and>
   processor_decode_text zz_processor [] \<noteq> Inr ''zz''"
  by (simp add: zz_init)
     (simp add: zz_processor_def processor_encode_text_def processor_decode_text_def
        encode_text_def decode_text_def)

text \<open>
  Claim C2 (a single distinct symbol gets a one-bit code and round-trips). On
  \<^verbatim>\<open>"aaaa"\<close> the code table maps \<^verbatim>\<open>"a"\<close> to the empty string, the encoding is
  empty, and decoding the encoding gives the empty string.
\<close>

theorem single_symbol_code_empty:
  "HuffmanBasedProcessor_init ''aaaa'' = Inr aaaa_processor \<and>
   code_dict (huffman aaaa_processor) CHR ''a'' = Some [] \<and>
   processor_encode_text aaaa_processor None = Inr [] \<and>
   processor_decode_text aaaa_processor [] = Inr []"
  by (simp add: aaaa_init)
     (simp add: aaaa_processor_def processor_encode_text_def processor_decode_text_def
        encode_text_def decode_text_def)

text \<open>
  Claim C3, as stated, fails: with the table of \<^verbatim>\<open>"ab"\<close> the symbol \<^verbatim>\<open>"x"\<close> has no
  entry, and encoding \<^verbatim>\<open>"axb"\<close> returns the codes of \<^verbatim>\<open>"a"\<close> and \<^verbatim>\<open>"b"\<close>.
\<close>

theorem encode_unknown_symbol_counterexample:
  "HuffmanMethod_init ab_nodes = Inr ab_method \<and>
   code_dict ab_method CHR ''x'' = None \<and>
   encode_text ab_method ''axb'' = Inr ''01''"
  by (simp add: ab_init) (simp add: ab_method_def encode_text_def)

text \<open>
  Claim C3, amended: encoding never fails. Its result is the concatenation, in input
  order, of what each symbol contributes: its code when the table has an entry for it,
  nothing otherwise. For a sequence fully covered by the table this is the concatenation
  of the codes of all its symbols.
\<close>

theorem encode_skips_unknown_symbols:
  "encode_text m inp =
     Inr (concat (map (\<lambda>c. case code_dict m c of None \<Rightarrow> [] | Some code \<Rightarrow> code) inp))"
  by (rule encode_text_closed)

text \<open>
  Claim C4: constructing from an empty node list fails, and so does the processor of the
  empty text, whose frequency table is empty. The error is the one raised by
  \<^verbatim>\<open>copy_nodes[0]\<close>, and the empty list is the only input that raises it.
\<close>

theorem empty_input_fails:
  "HuffmanMethod_init [] = Inl IndexError \<and>
   HuffmanBasedProcessor_init [] = Inl IndexError \<and>
   (HuffmanMethod_init ns = Inl IndexError) = (ns = [])"
proof -
  have a: "HuffmanMethod_init [] = Inl IndexError"
    by (simp add: HuffmanMethod_init_def create_root_of_tree_empty)
  have b: "HuffmanBasedProcessor_init [] = Inl IndexError"
    by (simp add: HuffmanBasedProcessor_init_def create_huffman_tree_def count_chars_freq_def a)
  have c: "HuffmanMethod_init ns \<noteq> Inl IndexError" if "ns \<noteq> []"
  proof -
    from create_root_of_tree_nonempty(1) [OF that] obtain rt
      where rt: "create_root_of_tree ns = Inr rt" by blast
    show ?thesis
    proof (cases "generate_codes rt [] Map.empty")
      case (Inl e)
      with generate_codes_error [OF Inl] show ?thesis
        by (simp add: HuffmanMethod_init_def rt)
    next
      case (Inr cd)
      then show ?thesis by (simp add: HuffmanMethod_init_def rt)
    qed
  qed
  from a b c show ?thesis by auto
qed

text \<open>
  Claim C5: in a code table derived from a tree, the codes of two distinct symbols are
  not prefixes of one another.
\<close>

theorem code_table_prefix_free:
  assumes "generate_codes rt [] Map.empty = Inr cd"
    and "cd c1 = Some p1" and "cd c2 = Some p2" and "c1 \<noteq> c2"
  shows "\<not> prefix p1 p2 \<and> \<not> prefix p2 p1"
proof -
  from generate_codes_walk [OF assms(1,2)] have w1: "walk rt p1 = Some c1" by simp
  from generate_codes_walk [OF assms(1,3)] have w2: "walk rt p2 = Some c2" by simp
  have "\<not> prefix p1 p2"
  proof
    assume "prefix p1 p2"
    then obtain q where "p2 = p1 @ q" by (auto simp: prefix_def)
    with walk_prefix_unique [OF w1, of q c2] w2 assms(4) show False by simp
  qed
  moreover have "\<not> prefix p2 p1"
  proof
    assume "prefix p2 p1"
    then obtain q where "p1 = p2 @ q" by (auto simp: prefix_def)
    with walk_prefix_unique [OF w2, of q c1] w1 assms(4) show False by simp
  qed
  ultimately show ?thesis by simp
qed

theorem code_table_prefix_free_witness:
  "generate_codes abc_root [] Map.empty =
     Inr [CHR ''a'' \<mapsto> ''0'', CHR ''b'' \<mapsto> ''10'', CHR ''c'' \<mapsto> ''11''] \<and>
   \<not> prefix ''10'' ''11'' \<and> \<not> prefix ''11'' ''10''"
proof -
  have g: "generate_codes abc_root [] Map.empty =
     Inr [CHR ''a'' \<mapsto> ''0'', CHR ''b'' \<mapsto> ''10'', CHR ''c'' \<mapsto> ''11'']"
    by (simp add: abc_root_def)
  from code_table_prefix_free [OF g, of "CHR ''b''" "''10''" "CHR ''c''" "''11''"]
  show ?thesis using g by simp
qed

lemma machine_run_decode_loop:
  "set bits \<subseteq> {CHR ''0'', CHR ''1''} \<Longrightarrow>
     decode_loop rt n bits acc =
       (case machine_run rt (n, acc) bits of
          None \<Rightarrow> Inl AttributeError
        | Some st \<Rightarrow> Inr (snd st))"
proof (induction bits arbitrary: n acc)
  case Nil
  then show ?case by simp
next
  case (Cons b bs)
  from Cons.prems have b: "b = CHR ''0'' \<or> b = CHR ''1''" and bs: "set bs \<subseteq> {CHR ''0'', CHR ''1''}"
    by auto
  from b show ?case
    by (auto simp: machine_step_def Cons.IH [OF bs] split: option.splits)
qed

text \<open>
  Claim C6: on a string of bits \<open>decode_text\<close> computes what the state machine of the
  specification computes, for every tree. And when a stream is the encoding of a text
  followed by a proper prefix of some code, decoding returns the text: the trailing
  partial code yields no symbol.
\<close>

theorem decoder_state_machine:
  "(set bits \<subseteq> {CHR ''0'', CHR ''1''} \<longrightarrow>
      decode_text m bits =
        (case spec_decode (root m) bits of
           None \<Rightarrow> Inl AttributeError
         | Some out \<Rightarrow> Inr out)) \<and>
   (HuffmanMethod_init ns = Inr h \<and> 2 \<le> length ns \<and> list_all (\<lambda>n. char n \<noteq> None) ns \<and>
    set inp \<subseteq> dom (code_dict h) \<and> encode_text h inp = Inr enc \<and>
    code_dict h c = Some code \<and> strict_prefix p code \<longrightarrow>
      decode_text h (enc @ p) = Inr inp)"
proof (intro conjI impI)
  assume "set bits \<subseteq> {CHR ''0'', CHR ''1''}"
  from machine_run_decode_loop [OF this, of "root m" "root m" "[]"]
  show "decode_text m bits =
        (case spec_decode (root m) bits of None \<Rightarrow> Inl AttributeError | Some out \<Rightarrow> Inr out)"
    by (simp add: decode_text_def spec_decode_def split: option.splits)
next
  assume a: "HuffmanMethod_init ns = Inr h \<and> 2 \<le> length ns \<and>
    list_all (\<lambda>n. char n \<noteq> None) ns \<and>
    set inp \<subseteq> dom (code_dict h) \<and> encode_text h inp = Inr enc \<and>
    code_dict h c = Some code \<and> strict_prefix p code"
  then have init: "HuffmanMethod_init ns = Inr h" and len: "2 \<le> length ns"
    and lv: "list_all (\<lambda>n. char n \<noteq> None) ns" and cov: "set inp \<subseteq> dom (code_dict h)"
    and enc: "encode_text h inp = Inr enc" and code: "code_dict h c = Some code"
    and sp: "strict_prefix p code"
    by blast+
  note pr = leaves_proper [OF lv]
  from sp obtain q where q: "code = p @ q" and qn: "q \<noteq> []"
    by (auto simp: strict_prefix_def prefix_def)
  from init_code_walk [OF init code] have "walk (root h) (p @ q) = Some c" by (simp add: q)
  from decode_loop_partial [OF this qn]
  have "decode_loop (root h) (root h) p inp = Inr inp" .
  with decode_encoded [OF init len pr cov enc, of p]
  show "decode_text h (enc @ p) = Inr inp" by simp
qed

theorem decoder_state_machine_witness:
  "set ''0101'' \<subseteq> {CHR ''0'', CHR ''1''} \<and>
   decode_text abc_method ''0101'' = Inr ''ab'' \<and>
   spec_decode (root abc_method) ''0101'' = Some ''ab'' \<and>
   HuffmanMethod_init abc_nodes = Inr abc_method \<and> 2 \<le> length abc_nodes \<and>
   list_all (\<lambda>n. char n \<noteq> None) abc_nodes \<and>
   set ''ab'' \<subseteq> dom (code_dict abc_method) \<and> encode_text abc_method ''ab'' = Inr ''010'' \<and>
   code_dict abc_method CHR ''c'' = Some ''11'' \<and> strict_prefix ''1'' ''11'' \<and>
   decode_text abc_method (''010'' @ ''1'') = Inr ''ab''"
proof -
  have h1: "set ''0101'' \<subseteq> {CHR ''0'', CHR ''1''}" by simp
  have h2: "HuffmanMethod_init abc_nodes = Inr abc_method \<and> 2 \<le> length abc_nodes \<and>
    list_all (\<lambda>n. char n \<noteq> None) abc_nodes \<and>
    set ''ab'' \<subseteq> dom (code_dict abc_method) \<and> encode_text abc_method ''ab'' = Inr ''010'' \<and>
    code_dict abc_method CHR ''c'' = Some ''11'' \<and> strict_prefix ''1'' ''11''"
    by (simp add: abc_init) (simp add: abc_nodes_def abc_method_def encode_text_def)
  have s: "spec_decode (root abc_method) ''0101'' = Some ''ab''"
    by (simp add: spec_decode_def machine_step_def abc_method_def abc_root_def)
  from decoder_state_machine [of "''0101''" abc_method abc_nodes abc_method "''ab''" "''010''"
      "CHR ''c''" "''11''" "''1''"] h1 h2 s
  show ?thesis by simp
qed

text \<open>
  Claim C7, as stated, fails: \<^verbatim>\<open>"x"\<close> is neither \<^verbatim>\<open>"0"\<close> nor \<^verbatim>\<open>"1"\<close>, and
  decoding it with the tree of \<^verbatim>\<open>"ab"\<close> succeeds.
\<close>

theorem decode_nonbinary_counterexample:
  "HuffmanMethod_init ab_nodes = Inr ab_method \<and>
   CHR ''x'' \<noteq> CHR ''0'' \<and> CHR ''x'' \<noteq> CHR ''1'' \<and>
   decode_text ab_method ''x'' = Inr ''b''"
  by (simp add: ab_init) (simp add: ab_method_def decode_text_def)

text \<open>
  Claim C7, amended: decoding does not report a non-binary character; every character
  other than \<^verbatim>\<open>"0"\<close> is read as \<^verbatim>\<open>"1"\<close>. With a tree built from at least two
  leaf nodes, decoding succeeds on every input string.
\<close>

theorem decode_treats_nonbinary_as_one:
  "decode_text m bits =
     decode_text m (map (\<lambda>c. if c = CHR ''0'' then CHR ''0'' else CHR ''1'') bits) \<and>
   (HuffmanMethod_init ns = Inr h \<and> 2 \<le> length ns \<and> list_all (\<lambda>n. char n \<noteq> None) ns \<longrightarrow>
      (\<exists>out. decode_text h bits = Inr out))"
proof (intro conjI impI)
  show "decode_text m bits =
     decode_text m (map (\<lambda>c. if c = CHR ''0'' then CHR ''0'' else CHR ''1'') bits)"
    unfolding decode_text_def by (rule decode_loop_nonbinary)
next
  assume a: "HuffmanMethod_init ns = Inr h \<and> 2 \<le> length ns \<and>
    list_all (\<lambda>n. char n \<noteq> None) ns"
  then have init: "HuffmanMethod_init ns = Inr h" and len: "2 \<le> length ns"
    and lv: "list_all (\<lambda>n. char n \<noteq> None) ns"
    by blast+
  note pr = leaves_proper [OF lv]
  note i = init_internal [OF init len pr]
  from decode_loop_total [OF i(2) i(1) i(2) i(1)]
  show "\<exists>out. decode_text h bits = Inr out" by (simp add: decode_text_def)
qed

theorem decode_treats_nonbinary_as_one_witness:
  "decode_text ab_method ''0x'' = decode_text ab_method ''01'' \<and>
   HuffmanMethod_init ab_nodes = Inr ab_method \<and> 2 \<le> length ab_nodes \<and>
   list_all (\<lambda>n. char n \<noteq> None) ab_nodes \<and>
   (\<exists>out. decode_text ab_method ''0x'' = Inr out)"
proof -
  have h: "HuffmanMethod_init ab_nodes = Inr ab_method \<and> 2 \<le> length ab_nodes \<and>
    list_all (\<lambda>n. char n \<noteq> None) ab_nodes"
    by (simp add: ab_init) (simp add: ab_nodes_def)
  note t = decode_treats_nonbinary_as_one [of ab_method "''0x''" ab_nodes ab_method]
  from t have eq: "decode_text ab_method ''0x'' = decode_text ab_method ''01''" by simp
  from t h have ex: "\<exists>out. decode_text ab_method ''0x'' = Inr out" by blast
  from eq ex h show ?thesis by blast
qed

text \<open>
  Claim C8, as stated, fails: the code of \<^verbatim>\<open>b\<close> has four bits, not three.
\<close>

theorem textbook_lengths_counterexample:
  "HuffmanMethod_init textbook_nodes = Inr textbook_method \<and>
   map_option length (code_dict textbook_method CHR ''b'') = Some 4 \<and>
   map_option length (code_dict textbook_method CHR ''b'') \<noteq> Some 3"
  by (simp add: textbook_init) (simp add: textbook_method_def)

text \<open>
  Claim C8, amended: for the frequencies \<^verbatim>\<open>{a:5, b:9, c:12, d:13, e:16, f:45}\<close>
  the code lengths are f:1, c:3, d:3, a:4, b:4, e:3.
\<close>

theorem textbook_lengths:
  "HuffmanMethod_init textbook_nodes = Inr textbook_method \<and>
   map (\<lambda>c. map_option length (code_dict textbook_method c)) ''fcdabe'' =
     [Some 1, Some 3, Some 3, Some 4, Some 4, Some 3]"
  by (simp add: textbook_init) (simp add: textbook_method_def)

text \<open>
  Claim C10: built from one leaf node, the root is that leaf, and decoding any non-empty
  string fails at its first character on the missing child. Built from at least two leaf
  nodes, the root is an internal node and decoding succeeds on every string.
\<close>

theorem decode_missing_child:
  "(char n \<noteq> None \<and> left n = None \<and> right n = None \<longrightarrow>
      (\<exists>m. HuffmanMethod_init [n] = Inr m \<and> root m = n \<and>
           left (root m) = None \<and> right (root m) = None \<and>
           decode_text m (b # bits) = Inl AttributeError)) \<and>
   (2 \<le> length ns \<and> list_all (\<lambda>n. char n \<noteq> None) ns \<longrightarrow>
      (\<exists>m. HuffmanMethod_init ns = Inr m \<and> char (root m) = None \<and>
           (\<forall>s. \<exists>out. decode_text m s = Inr out)))"
proof (intro conjI impI)
  assume a: "char n \<noteq> None \<and> left n = None \<and> right n = None"
  then obtain c f where n: "n = Node (Some c) f None None" by (cases n) auto
  define m where "m = \<lparr>base_nodes = [n], root = n, code_dict = [c \<mapsto> []]\<rparr>"
  have init: "HuffmanMethod_init [n] = Inr m"
    by (simp add: HuffmanMethod_init_def create_root_of_tree_def create_root_loop_stop n m_def)
  have rt: "root m = n" by (simp add: m_def)
  have "decode_loop n n (b # bits) [] = Inl AttributeError"
    by (simp add: n)
  then have "decode_text m (b # bits) = Inl AttributeError"
    by (simp only: decode_text_def rt)
  with init rt a show "\<exists>m. HuffmanMethod_init [n] = Inr m \<and> root m = n \<and>
           left (root m) = None \<and> right (root m) = None \<and>
           decode_text m (b # bits) = Inl AttributeError"
    by auto
next
  assume a: "2 \<le> length ns \<and> list_all (\<lambda>n. char n \<noteq> None) ns"
  then have len: "2 \<le> length ns" and lv: "list_all (\<lambda>n. char n \<noteq> None) ns"
    by blast+
  note pr = leaves_proper [OF lv]
  from len have ne: "ns \<noteq> []" by auto
  from init_proper [OF ne pr] obtain m where init: "HuffmanMethod_init ns = Inr m" by blast
  note i = init_internal [OF init len pr]
  have "\<exists>out. decode_text m s = Inr out" for s
    using decode_loop_total [OF i(2) i(1) i(2) i(1)] by (simp add: decode_text_def)
  with init i(1) show "\<exists>m. HuffmanMethod_init ns = Inr m \<and> char (root m) = None \<and>
           (\<forall>s. \<exists>out. decode_text m s = Inr out)"
    by blast
qed

theorem decode_missing_child_witness:
  "(\<exists>m. HuffmanMethod_init [Node (Some CHR ''a'') 4 None None] = Inr m \<and>
        root m = Node (Some CHR ''a'') 4 None None \<and>
        left (root m) = None \<and> right (root m) = None \<and>
        decode_text m (CHR ''0'' # ''1'') = Inl AttributeError) \<and>
   (\<exists>m. HuffmanMethod_init ab_nodes = Inr m \<and> char (root m) = None \<and>
        (\<forall>s. \<exists>out. decode_text m s = Inr out))"
proof -
  have h1: "char (Node (Some CHR ''a'') 4 None None) \<noteq> None \<and>
    left (Node (Some CHR ''a'') 4 None None) = None \<and>
    right (Node (Some CHR ''a'') 4 None None) = None" by simp
  have h2: "2 \<le> length ab_nodes \<and> list_all (\<lambda>n. char n \<noteq> None) ab_nodes"
    by (simp add: ab_nodes_def)
  from decode_missing_child [of "Node (Some CHR ''a'') 4 None None" "CHR ''0''" "''1''" ab_nodes]
    h1 h2
  show ?thesis by blast
qed


text \<open>
  Claim C9: no node is changed after its creation. Constructing a
  \<^verbatim>\<open>HuffmanMethod\<close> (tree construction and code derivation) leaves every node object
  that existed before unchanged, and leaves the list it was given unchanged; each pass of
  the merge loop, and the rest of the loop after it, leave every node that exists at
  that moment unchanged, so an internal node keeps its weight and children from its
  creation on; code derivation, encoding and decoding leave the whole store unchanged.
\<close>

theorem nodes_never_mutated:
  "nodes_upto (node_count s) (snd (HuffmanMethod_init_s limit nodes_ref s)) =
     nodes_upto (node_count s) s \<and>
   (nodes_ref < list_count s \<longrightarrow>
      list_at (snd (HuffmanMethod_init_s limit nodes_ref s)) nodes_ref = list_at s nodes_ref) \<and>
   nodes_upto (node_count s) (merge_step_s copy_nodes s) = nodes_upto (node_count s) s \<and>
   nodes_upto (node_count s) (create_root_loop_s copy_nodes s) = nodes_upto (node_count s) s \<and>
   snd (generate_codes_s limit n pfx cd s) = s \<and>
   snd (encode_text_s m inp s) = s \<and>
   snd (decode_text_s m bits s) = s"
proof -
  note f = create_root_of_tree_s_frame [of s nodes_ref]
  have a: "nodes_upto (node_count s) (snd (HuffmanMethod_init_s limit nodes_ref s)) =
     nodes_upto (node_count s) s"
    unfolding HuffmanMethod_init_s_store using f by (intro nodes_upto_cong) simp
  have b: "list_at (snd (HuffmanMethod_init_s limit nodes_ref s)) nodes_ref = list_at s nodes_ref"
    if "nodes_ref < list_count s"
    unfolding HuffmanMethod_init_s_store using f that by simp
  have c: "nodes_upto (node_count s) (merge_step_s copy_nodes s) = nodes_upto (node_count s) s"
    by (intro nodes_upto_cong) (simp add: merge_step_s_node)
  have d: "nodes_upto (node_count s) (create_root_loop_s copy_nodes s) =
     nodes_upto (node_count s) s"
    using create_root_loop_s_frame [of s copy_nodes] by (intro nodes_upto_cong) simp
  have e: "snd (encode_text_s m inp s) = s" by (simp add: encode_text_s_def)
  have g: "snd (decode_text_s m bits s) = s" by (simp add: decode_text_s_def decode_loop_s_store)
  from a b c d e g generate_codes_s_store show ?thesis by blast
qed

theorem nodes_never_mutated_witness:
  "(0::nat) < list_count ab_store \<and>
   nodes_upto 2 (snd (HuffmanMethod_init_s 5 0 ab_store)) = nodes_upto 2 ab_store \<and>
   list_at (snd (HuffmanMethod_init_s 5 0 ab_store)) 0 = [0, 1]"
proof -
  have h: "(0::nat) < list_count ab_store" and k: "node_count ab_store = 2"
    and l: "list_at ab_store 0 = [0, 1]"
    by (simp_all add: ab_store_def)
  from nodes_never_mutated [of ab_store 5 0] h k l show ?thesis by simp
qed

end
